theory Spec2Isabelle
  imports Complex_Main "HOL-Library.Multiset" "HOL-Library.Signed_Division"
begin

section \<open>Machine integers of the source\<close>

text \<open>
  Both programs count and index with the C++ type \<open>int\<close> (32 bits, two's complement).
  The model keeps such values in \<open>int\<close> and writes the width out where the source can
  leave it: the conversion of \<open>data.size()\<close> to \<open>int\<close>, the shift \<open>1 << splits\<close> and the
  divisions. An operation that C++ leaves undefined is an \<open>error\<close> value of the model.
  The elements are \<open>double\<close> in the source and \<open>real\<close> here: all sums are exact.
\<close>

datatype error = Shift_undefined | Division_by_zero | Division_overflow

definition to_int :: "int \<Rightarrow> int" where
  "to_int k = signed_take_bit 31 k"

definition INT_MAX :: int where
  "INT_MAX = 2147483647"

definition INT_MIN :: int where
  "INT_MIN = - 2147483648"

definition shl :: "int \<Rightarrow> int \<Rightarrow> error + int" where
  "shl a n = (if n < 0 \<or> 32 \<le> n then Inl Shift_undefined
              else Inr (to_int (a * 2 ^ nat n)))"

definition c_div :: "int \<Rightarrow> int \<Rightarrow> error + int" where
  "c_div a b = (if b = 0 then Inl Division_by_zero
                else if a = INT_MIN \<and> b = - 1 then Inl Division_overflow
                else Inr (a sdiv b))"

section \<open>StatsTask\<close>

type_synonym dataset = "real list"

record StatsTask =
  start :: int
  end_idx :: int

record locals =
  local_log_sum :: real
  local_sum :: real
  local_diff_sum :: real
  local_has_zero :: bool
  local_count :: int

record globals =
  global_log_sum :: real
  global_sum :: real
  global_diff_sum :: real
  has_zero :: bool
  global_count :: int

definition locals0 :: locals where
  "locals0 = \<lparr>local_log_sum = 0, local_sum = 0, local_diff_sum = 0,
              local_has_zero = False, local_count = 0\<rparr>"

definition globals0 :: globals where
  "globals0 = \<lparr>global_log_sum = 0, global_sum = 0, global_diff_sum = 0,
               has_zero = False, global_count = 0\<rparr>"

text \<open>One iteration of the loop of \<open>computeMetrics\<close> at index \<open>i\<close>.\<close>

definition loop_body :: "dataset \<Rightarrow> int \<Rightarrow> locals \<Rightarrow> locals" where
  "loop_body data i l =
     (let val = data ! nat i in
      \<lparr>local_log_sum = (if val = 0 then local_log_sum l
                         else local_log_sum l + ln \<bar>val\<bar>),
       local_sum = local_sum l + val,
       local_diff_sum = local_diff_sum l + (val - of_int i),
       local_has_zero = (if val = 0 then True else local_has_zero l),
       local_count = local_count l + 1\<rparr>)"

text \<open>\<open>for (int i = start; i < end; ++i)\<close>, entered at \<open>i\<close>.\<close>

function compute_loop :: "dataset \<Rightarrow> int \<Rightarrow> int \<Rightarrow> locals \<Rightarrow> locals" where
  "compute_loop data i e l =
     (if i < e then compute_loop data (i + 1) e (loop_body data i l) else l)"
  by pat_completeness auto
termination
  by (relation "measure (\<lambda>(data, i, e, l). nat (e - i))") auto

declare compute_loop.simps [simp del]

text \<open>The part of \<open>computeMetrics\<close> before the lock: the task's local totals.\<close>

definition local_metrics :: "dataset \<Rightarrow> StatsTask \<Rightarrow> locals" where
  "local_metrics data t = compute_loop data (start t) (end_idx t) locals0"

text \<open>The critical section of \<open>computeMetrics\<close>.\<close>

definition merge :: "globals \<Rightarrow> locals \<Rightarrow> globals" where
  "merge g l =
     \<lparr>global_log_sum = global_log_sum g + local_log_sum l,
      global_sum = global_sum g + local_sum l,
      global_diff_sum = global_diff_sum g + local_diff_sum l,
      has_zero = (has_zero g \<or> local_has_zero l),
      global_count = global_count g + local_count l\<rparr>"

definition computeMetrics :: "dataset \<Rightarrow> StatsTask \<Rightarrow> globals \<Rightarrow> globals" where
  "computeMetrics data t g = merge g (local_metrics data t)"

section \<open>Scheduling\<close>

text \<open>
  The tasks run concurrently; each reads the dataset, computes its local totals and
  then merges them under the mutex. The local part does not touch shared state, so a
  run is determined by the order in which the tasks enter the critical section. A
  scheduler gives that order for the tasks handed to it. Threads that are joined and
  runnables of a drained pool have each run once: \<open>exactly_once\<close>.
\<close>

type_synonym scheduler = "StatsTask list \<Rightarrow> StatsTask list"

definition exactly_once :: "scheduler \<Rightarrow> bool" where
  "exactly_once sched = (\<forall>ts. mset (sched ts) = mset ts)"

section \<open>The executors\<close>

record metrics =
  mode :: real
  stddev :: real
  sum_out :: real

datatype diagnostic = Splits_out_of_range | Threads_out_of_range

text \<open>
  What a call leaves behind: the three output parameters, the lines written to
  \<open>std::cerr\<close>, the tasks constructed, the number of threads constructed (runnables
  started, for the pool) and the global totals read after the join, if any.
\<close>

record effects =
  out :: metrics
  cerr :: "diagnostic list"
  tasks :: "StatsTask list"
  spawned :: nat
  merged :: "globals option"

definition short_circuit :: effects where
  "short_circuit = \<lparr>out = \<lparr>mode = 0, stddev = 0, sum_out = 0\<rparr>, cerr = [],
                     tasks = [], spawned = 0, merged = None\<rparr>"

definition rejected :: "diagnostic \<Rightarrow> metrics \<Rightarrow> effects" where
  "rejected d m = \<lparr>out = m, cerr = [d], tasks = [], spawned = 0, merged = None\<rparr>"

text \<open>The task construction of \<open>for (int i = 0; i < parts; ++i)\<close>, entered at \<open>i\<close>.\<close>

function make_tasks :: "int \<Rightarrow> int \<Rightarrow> int \<Rightarrow> int \<Rightarrow> StatsTask list" where
  "make_tasks sz parts chunk_size i =
     (if i < parts
      then \<lparr>start = i * chunk_size,
            end_idx = (if i = parts - 1 then sz else i * chunk_size + chunk_size)\<rparr>
           # make_tasks sz parts chunk_size (i + 1)
      else [])"
  by pat_completeness auto
termination
  by (relation "measure (\<lambda>(sz, parts, chunk_size, i). nat (parts - i))") auto

declare make_tasks.simps [simp del]

text \<open>The last three assignments of both executors.\<close>

definition final_metrics :: "globals \<Rightarrow> metrics" where
  "final_metrics g =
     \<lparr>mode = (if global_count g > 0 then global_diff_sum g / of_int (global_count g) else 0),
      stddev = global_sum g / 2,
      sum_out = (if has_zero g then 0 else exp (global_log_sum g))\<rparr>"

text \<open>
  From the task loop to the end of \<open>divideAndConquer\<close> (the same text in both files):
  a single part runs on the calling thread, otherwise one thread per task is
  constructed and all are joined.
\<close>

definition spawn_and_join :: "scheduler \<Rightarrow> dataset \<Rightarrow> int \<Rightarrow> int \<Rightarrow> int \<Rightarrow> effects" where
  "spawn_and_join sched data sz parts chunk_size =
     (let ts = make_tasks sz parts chunk_size 0;
          g = fold (computeMetrics data) (if parts = 1 then ts else sched ts) globals0
      in \<lparr>out = final_metrics g, cerr = [], tasks = ts,
          spawned = (if parts = 1 then 0 else length ts), merged = Some g\<rparr>)"

text \<open>From the task loop to the end of \<open>threadPool\<close>: every task goes to the pool.\<close>

definition start_and_wait :: "scheduler \<Rightarrow> dataset \<Rightarrow> int \<Rightarrow> int \<Rightarrow> int \<Rightarrow> effects" where
  "start_and_wait sched data sz num_threads chunk_size =
     (let ts = make_tasks sz num_threads chunk_size 0;
          g = fold (computeMetrics data) (sched ts) globals0
      in \<lparr>out = final_metrics g, cerr = [], tasks = ts,
          spawned = length ts, merged = Some g\<rparr>)"

text \<open>\<open>divideAndConquer\<close> of main.cc (\<open>_cc\<close>): split depth 0 to 32, at most 16 parts.\<close>

definition divideAndConquer_cc ::
    "scheduler \<Rightarrow> dataset \<Rightarrow> int \<Rightarrow> metrics \<Rightarrow> error + effects" where
  "divideAndConquer_cc sched data splits m =
     (if data = [] then Inr short_circuit
      else
        let sz = to_int (int (length data)) in
        if splits < 0 \<or> splits > 32 then Inr (rejected Splits_out_of_range m)
        else
          case (if splits = 0 then Inr 1 else shl 1 splits) of
            Inl e \<Rightarrow> Inl e
          | Inr parts \<Rightarrow>
              (case c_div sz parts of
                 Inl e \<Rightarrow> Inl e
               | Inr chunk_size \<Rightarrow>
                   if chunk_size = 0 \<or> parts > 16
                   then (case c_div sz (min sz 16) of
                           Inl e \<Rightarrow> Inl e
                         | Inr chunk_size' \<Rightarrow>
                             Inr (spawn_and_join sched data sz (min sz 16) chunk_size'))
                   else Inr (spawn_and_join sched data sz parts chunk_size)))"

text \<open>\<open>divideAndConquer\<close> of the second program (\<open>_qt\<close>): split depth 0 to 5, no ceiling.\<close>

definition divideAndConquer_qt ::
    "scheduler \<Rightarrow> dataset \<Rightarrow> int \<Rightarrow> metrics \<Rightarrow> error + effects" where
  "divideAndConquer_qt sched data splits m =
     (if data = [] then Inr short_circuit
      else
        let sz = to_int (int (length data)) in
        if splits < 0 \<or> splits > 5 then Inr (rejected Splits_out_of_range m)
        else
          case (if splits = 0 then Inr 1 else shl 1 splits) of
            Inl e \<Rightarrow> Inl e
          | Inr parts \<Rightarrow>
              (case c_div sz parts of
                 Inl e \<Rightarrow> Inl e
               | Inr chunk_size \<Rightarrow>
                   if chunk_size = 0
                   then Inr (spawn_and_join sched data sz sz 1)
                   else Inr (spawn_and_join sched data sz parts chunk_size)))"

text \<open>\<open>threadPool\<close> of the second program: 1 to 32 workers.\<close>

definition threadPool ::
    "scheduler \<Rightarrow> dataset \<Rightarrow> int \<Rightarrow> metrics \<Rightarrow> error + effects" where
  "threadPool sched data num_threads m =
     (if data = [] then Inr short_circuit
      else
        let sz = to_int (int (length data)) in
        if num_threads < 1 \<or> num_threads > 32 then Inr (rejected Threads_out_of_range m)
        else
          case c_div sz num_threads of
            Inl e \<Rightarrow> Inl e
          | Inr chunk_size \<Rightarrow>
              if chunk_size = 0
              then Inr (start_and_wait sched data sz sz 1)
              else Inr (start_and_wait sched data sz num_threads chunk_size))"

section \<open>The two programs\<close>












section \<open>Reference notions of the specification\<close>

text \<open>
  The single-threaded pass the specification compares with: one fold over the whole
  dataset in element order, for the sum, for the sum of \<open>value - index\<close> and for the sum
  of \<open>ln |value|\<close>.
\<close>

definition sequential_sum :: "dataset \<Rightarrow> real" where
  "sequential_sum data = foldl (\<lambda>acc v. acc + v) 0 data"

definition sequential_diff_sum :: "dataset \<Rightarrow> real" where
  "sequential_diff_sum data =
     foldl (\<lambda>acc (i, v). acc + (v - real i)) 0 (enumerate 0 data)"

definition sequential_log_sum :: "dataset \<Rightarrow> real" where
  "sequential_log_sum data = foldl (\<lambda>acc v. acc + ln \<bar>v\<bar>) 0 data"

text \<open>
  A list of tasks is a chain from \<open>a\<close> to \<open>b\<close> when the first range starts at \<open>a\<close>, every
  range starts where the one before it ends, no range runs backwards and the last one
  ends at \<open>b\<close>.
\<close>

fun chain :: "int \<Rightarrow> int \<Rightarrow> StatsTask list \<Rightarrow> bool" where
  "chain a b [] = (a = b)"
| "chain a b (t # ts) = (start t = a \<and> a \<le> end_idx t \<and> chain (end_idx t) b ts)"

definition indices :: "StatsTask \<Rightarrow> int set" where
  "indices t = {start t..<end_idx t}"

text \<open>
  The tasks partition the indices below \<open>n\<close>: they form a chain from 0 to \<open>n\<close>, their
  half-open ranges cover exactly the indices from 0 up to \<open>n\<close>, no two of them share an
  index, and their lengths add up to \<open>n\<close>.
\<close>

definition partitions :: "int \<Rightarrow> StatsTask list \<Rightarrow> bool" where
  "partitions n ts \<longleftrightarrow>
     chain 0 n ts \<and>
     (\<Union>t\<in>set ts. indices t) = {0..<n} \<and>
     (\<forall>i<length ts. \<forall>j<length ts. i \<noteq> j \<longrightarrow> indices (ts ! i) \<inter> indices (ts ! j) = {}) \<and>
     (\<Sum>t\<leftarrow>ts. end_idx t - start t) = n"

text \<open>
  A call is a whole run of \<open>k\<close> tasks over the dataset when its tasks form a chain
  over all indices, none of them empty, nothing was written to \<open>std::cerr\<close>, and the
  totals read and the metrics written are those of the tasks merged in the order of
  their construction.
\<close>

definition whole_run :: "dataset \<Rightarrow> nat \<Rightarrow> effects \<Rightarrow> bool" where
  "whole_run data k r \<longleftrightarrow>
     chain 0 (int (length data)) (tasks r) \<and> length (tasks r) = k \<and>
     list_all (\<lambda>t. start t < end_idx t) (tasks r) \<and> cerr r = [] \<and>
     merged r = Some (fold (computeMetrics data) (tasks r) globals0) \<and>
     out r = final_metrics (fold (computeMetrics data) (tasks r) globals0)"

lemma int_interval_step: "i < e \<Longrightarrow> {i..<e} = insert i {i + 1..<e}" for i e :: int
  by auto

lemma sum_int_interval_step:
  "i < e \<Longrightarrow> sum f {i..<e} = f i + sum f {i + 1..<e}" for i e :: int and f :: "int \<Rightarrow> real"
  by (simp add: int_interval_step)

lemma compute_loop_sum:
  "local_sum (compute_loop data i e l) = local_sum l + (\<Sum>k = i..<e. data ! nat k)"
proof (induction data i e l rule: compute_loop.induct)
  case (1 data i e l)
  show ?case
  proof (cases "i < e")
    case True
    then show ?thesis
      using 1 by (simp add: compute_loop.simps [of data i e l] sum_int_interval_step loop_body_def Let_def)
  next
    case False
    then show ?thesis by (simp add: compute_loop.simps [of data i e l])
  qed
qed

lemma compute_loop_diff_sum:
  "local_diff_sum (compute_loop data i e l) =
     local_diff_sum l + (\<Sum>k = i..<e. data ! nat k - of_int k)"
proof (induction data i e l rule: compute_loop.induct)
  case (1 data i e l)
  show ?case
  proof (cases "i < e")
    case True
    then show ?thesis
      using 1 by (simp add: compute_loop.simps [of data i e l] sum_int_interval_step loop_body_def Let_def)
  next
    case False
    then show ?thesis by (simp add: compute_loop.simps [of data i e l])
  qed
qed

lemma compute_loop_log_sum:
  "local_log_sum (compute_loop data i e l) =
     local_log_sum l + (\<Sum>k = i..<e. if data ! nat k = 0 then 0 else ln \<bar>data ! nat k\<bar>)"
proof (induction data i e l rule: compute_loop.induct)
  case (1 data i e l)
  show ?case
  proof (cases "i < e")
    case True
    then show ?thesis
      using 1 by (simp add: compute_loop.simps [of data i e l] sum_int_interval_step loop_body_def Let_def)
  next
    case False
    then show ?thesis by (simp add: compute_loop.simps [of data i e l])
  qed
qed

lemma compute_loop_has_zero:
  "local_has_zero (compute_loop data i e l) =
     (local_has_zero l \<or> (\<exists>k\<in>{i..<e}. data ! nat k = 0))"
proof (induction data i e l rule: compute_loop.induct)
  case (1 data i e l)
  show ?case
  proof (cases "i < e")
    case True
    then show ?thesis
      using 1 by (auto simp add: compute_loop.simps [of data i e l] int_interval_step loop_body_def Let_def)
  next
    case False
    then show ?thesis by (simp add: compute_loop.simps [of data i e l])
  qed
qed

lemma compute_loop_count:
  "local_count (compute_loop data i e l) = local_count l + max 0 (e - i)"
proof (induction data i e l rule: compute_loop.induct)
  case (1 data i e l)
  show ?case
  proof (cases "i < e")
    case True
    then show ?thesis
      using 1 by (simp add: compute_loop.simps [of data i e l] loop_body_def Let_def)
  next
    case False
    then show ?thesis by (simp add: compute_loop.simps [of data i e l])
  qed
qed

text \<open>merges\<close>

lemma computeMetrics_commute:
  "computeMetrics data t \<circ> computeMetrics data u = computeMetrics data u \<circ> computeMetrics data t"
  by (rule ext) (auto simp add: computeMetrics_def merge_def)

lemma fold_computeMetrics_scheduled:
  assumes "exactly_once sched"
  shows "fold (computeMetrics data) (sched ts) g = fold (computeMetrics data) ts g"
proof -
  have "mset (sched ts) = mset ts"
    using assms by (simp add: exactly_once_def)
  then have "fold (computeMetrics data) (sched ts) = fold (computeMetrics data) ts"
    by (intro fold_multiset_equiv computeMetrics_commute)
  then show ?thesis by simp
qed

lemma chain_le: "chain a b ts \<Longrightarrow> a \<le> b"
  by (induction ts arbitrary: a) force+

lemma sum_int_interval_concat:
  fixes f :: "int \<Rightarrow> real"
  assumes "a \<le> m" "m \<le> b"
  shows "sum f {a..<m} + sum f {m..<b} = sum f {a..<b}"
proof -
  have "{a..<b} = {a..<m} \<union> {m..<b}" "{a..<m} \<inter> {m..<b} = {}"
    using assms by auto
  then show ?thesis
    by (simp add: sum.union_disjoint)
qed

lemma chain_sum:
  fixes f :: "int \<Rightarrow> real"
  shows "chain a b ts \<Longrightarrow> (\<Sum>t\<leftarrow>ts. sum f {start t..<end_idx t}) = sum f {a..<b}"
proof (induction ts arbitrary: a)
  case Nil
  then show ?case by simp
next
  case (Cons t ts)
  then have "end_idx t \<le> b" "a \<le> end_idx t" "start t = a"
    by (auto dest: chain_le)
  with Cons show ?case
    by (simp add: sum_int_interval_concat)
qed

lemma chain_len:
  "chain a b ts \<Longrightarrow> (\<Sum>t\<leftarrow>ts. end_idx t - start t) = b - a"
  by (induction ts arbitrary: a) auto

lemma chain_Ex:
  "chain a b ts \<Longrightarrow> (\<exists>t\<in>set ts. \<exists>k\<in>{start t..<end_idx t}. P k) = (\<exists>k\<in>{a..<b}. P k)"
proof (induction ts arbitrary: a)
  case Nil
  then show ?case by simp
next
  case (Cons t ts)
  then have *: "end_idx t \<le> b" "a \<le> end_idx t" "start t = a"
    by (auto dest: chain_le)
  then have "{a..<b} = {a..<end_idx t} \<union> {end_idx t..<b}"
    by auto
  with Cons * show ?case
    by auto
qed

lemma fold_global_sum:
  "global_sum (fold (computeMetrics data) ts g) =
     global_sum g + (\<Sum>t\<leftarrow>ts. local_sum (local_metrics data t))"
  by (induction ts arbitrary: g) (simp_all add: computeMetrics_def merge_def)

lemma fold_global_diff_sum:
  "global_diff_sum (fold (computeMetrics data) ts g) =
     global_diff_sum g + (\<Sum>t\<leftarrow>ts. local_diff_sum (local_metrics data t))"
  by (induction ts arbitrary: g) (simp_all add: computeMetrics_def merge_def)

lemma fold_global_log_sum:
  "global_log_sum (fold (computeMetrics data) ts g) =
     global_log_sum g + (\<Sum>t\<leftarrow>ts. local_log_sum (local_metrics data t))"
  by (induction ts arbitrary: g) (simp_all add: computeMetrics_def merge_def)

lemma fold_global_count:
  "global_count (fold (computeMetrics data) ts g) =
     global_count g + (\<Sum>t\<leftarrow>ts. local_count (local_metrics data t))"
  by (induction ts arbitrary: g) (simp_all add: computeMetrics_def merge_def)

lemma fold_has_zero:
  "has_zero (fold (computeMetrics data) ts g) =
     (has_zero g \<or> (\<exists>t\<in>set ts. local_has_zero (local_metrics data t)))"
  by (induction ts arbitrary: g) (auto simp add: computeMetrics_def merge_def)

lemma make_tasks_done: "parts \<le> i \<Longrightarrow> make_tasks sz parts chunk i = []"
  by (simp add: make_tasks.simps [of sz parts chunk i])

lemma make_tasks_step:
  "i < parts \<Longrightarrow> make_tasks sz parts chunk i =
     \<lparr>start = i * chunk, end_idx = (if i = parts - 1 then sz else i * chunk + chunk)\<rparr>
       # make_tasks sz parts chunk (i + 1)"
  by (simp add: make_tasks.simps [of sz parts chunk i])

lemma make_tasks_chain:
  "0 \<le> chunk \<Longrightarrow> (parts - 1) * chunk \<le> sz \<Longrightarrow> i < parts \<Longrightarrow>
     chain (i * chunk) sz (make_tasks sz parts chunk i)"
proof (induction sz parts chunk i rule: make_tasks.induct)
  case (1 sz parts chunk i)
  note step = make_tasks_step [OF \<open>i < parts\<close>, of sz chunk]
  show ?case
  proof (cases "i = parts - 1")
    case True
    then have "make_tasks sz parts chunk (i + 1) = []"
      by (simp add: make_tasks_done)
    with True 1 show ?thesis
      unfolding step by simp
  next
    case False
    with 1 have "chain ((i + 1) * chunk) sz (make_tasks sz parts chunk (i + 1))"
      by simp
    with False 1 show ?thesis
      unfolding step by (simp add: algebra_simps)
  qed
qed

lemma make_tasks_length: "length (make_tasks sz parts chunk i) = nat (parts - i)"
proof (induction sz parts chunk i rule: make_tasks.induct)
  case (1 sz parts chunk i)
  then show ?case
    by (cases "i < parts") (simp_all add: make_tasks.simps [of sz parts chunk i] nat_diff_distrib Suc_nat_eq_nat_zadd1 flip: Suc_diff_le)
qed

lemma make_tasks_nonempty:
  "1 \<le> chunk \<Longrightarrow> (parts - 1) * chunk < sz \<Longrightarrow> t \<in> set (make_tasks sz parts chunk i) \<Longrightarrow>
     start t < end_idx t"
proof (induction sz parts chunk i rule: make_tasks.induct)
  case (1 sz parts chunk i)
  show ?case
  proof (cases "i < parts")
    case True
    with 1 show ?thesis
      by (auto simp add: make_tasks.simps [of sz parts chunk i] split: if_splits)
  next
    case False
    with 1 show ?thesis
      by (simp add: make_tasks.simps [of sz parts chunk i])
  qed
qed

lemma to_int_id: "- 2147483648 \<le> k \<Longrightarrow> k \<le> 2147483647 \<Longrightarrow> to_int k = k"
  by (simp add: to_int_def signed_take_bit_int_eq_self_iff)

lemma shl_1_small:
  assumes "0 \<le> n" "n \<le> 30"
  shows "shl 1 n = Inr (2 ^ nat n)"
proof -
  have "(2::int) ^ nat n \<le> 2 ^ 30"
    using assms by (intro power_increasing) auto
  then have hi: "(2::int) ^ nat n \<le> 2147483647"
    by simp
  have "(0::int) \<le> 2 ^ nat n"
    by simp
  then have lo: "- 2147483648 \<le> (2::int) ^ nat n"
    by linarith
  show ?thesis
    using assms by (simp add: shl_def to_int_id [OF lo hi])
qed

lemma shl_1_31: "shl 1 31 = Inr INT_MIN"
  by (simp add: shl_def to_int_def INT_MIN_def)

lemma shl_1_wide: "32 \<le> n \<Longrightarrow> shl 1 n = Inl Shift_undefined"
  by (simp add: shl_def)

lemma c_div_pos: "0 \<le> a \<Longrightarrow> 0 < b \<Longrightarrow> c_div a b = Inr (a div b)"
  by (simp add: c_div_def INT_MIN_def signed_divide_int_def sgn_if)

lemma c_div_INT_MIN: "0 \<le> a \<Longrightarrow> a \<le> INT_MAX \<Longrightarrow> c_div a INT_MIN = Inr 0"
  by (simp add: c_div_def INT_MIN_def INT_MAX_def signed_divide_int_def sgn_if)

lemma parts_chunk_le: "0 < p \<Longrightarrow> p * (n div p) \<le> n" for n p :: int
  using mult_div_mod_eq [of p n] pos_mod_sign [of p n] by linarith

lemma chunk_pos: "0 < p \<Longrightarrow> p \<le> n \<Longrightarrow> 1 \<le> n div p" for n p :: int
  using Euclidean_Rings.pos_imp_zdiv_pos_iff [of p n] by simp

lemma chunk_zero_iff: "0 \<le> n \<Longrightarrow> 0 < p \<Longrightarrow> n div p = 0 \<longleftrightarrow> n < p" for n p :: int
  by (auto simp add: Euclidean_Rings.zdiv_eq_0_iff)

lemma sum_upto_Suc_int:
  fixes g :: "int \<Rightarrow> real"
  shows "sum g {0..<int (Suc n)} = sum g {0..<int n} + g (int n)"
proof -
  have "{0..<int (Suc n)} = insert (int n) {0..<int n}"
    by auto
  then show ?thesis by simp
qed

lemma sum_indices_foldl:
  fixes f :: "real \<Rightarrow> int \<Rightarrow> real"
  shows "(\<Sum>k = 0..<int (length xs). f (xs ! nat k) k) =
           foldl (\<lambda>acc (i, v). acc + f v (int i)) 0 (enumerate 0 xs)"
proof (induction xs rule: rev_induct)
  case Nil
  show ?case by simp
next
  case (snoc x xs)
  have "(\<Sum>k = 0..<int (length xs). f ((xs @ [x]) ! nat k) k) =
          (\<Sum>k = 0..<int (length xs). f (xs ! nat k) k)"
    by (intro sum.cong) (auto simp add: nth_append)
  with snoc show ?case
    by (simp add: sum_upto_Suc_int enumerate_append_eq del: of_nat_Suc)
qed

lemma foldl_enumerate_snd:
  "foldl (\<lambda>acc (i, v). acc + h v) a (enumerate n xs) = foldl (\<lambda>acc v. acc + h v) a xs"
  for h :: "real \<Rightarrow> real"
  by (induction xs arbitrary: a n) simp_all

lemma whole_sum: "(\<Sum>k = 0..<int (length data). data ! nat k) = sequential_sum data"
  using sum_indices_foldl [of "\<lambda>v k. v" data] foldl_enumerate_snd [of "\<lambda>v. v" 0 0 data]
  by (simp add: sequential_sum_def)

lemma whole_diff_sum:
  "(\<Sum>k = 0..<int (length data). data ! nat k - of_int k) = sequential_diff_sum data"
  using sum_indices_foldl [of "\<lambda>v k. v - of_int k" data]
  by (simp add: sequential_diff_sum_def)

lemma whole_log_sum:
  "0 \<notin> set data \<Longrightarrow>
   (\<Sum>k = 0..<int (length data). if data ! nat k = 0 then 0 else ln \<bar>data ! nat k\<bar>) =
     sequential_log_sum data"
proof -
  assume nz: "0 \<notin> set data"
  have "(\<Sum>k = 0..<int (length data). if data ! nat k = 0 then 0 else ln \<bar>data ! nat k\<bar>) =
        (\<Sum>k = 0..<int (length data). ln \<bar>data ! nat k\<bar>)"
    using nz by (intro sum.cong) (auto simp add: in_set_conv_nth)
  also have "\<dots> = sequential_log_sum data"
    using sum_indices_foldl [of "\<lambda>v k. ln \<bar>v\<bar>" data] foldl_enumerate_snd [of "\<lambda>v. ln \<bar>v\<bar>" 0 0 data]
    by (simp add: sequential_log_sum_def)
  finally show ?thesis .
qed

lemma whole_has_zero: "(\<exists>k\<in>{0..<int (length data)}. data ! nat k = 0) = (0 \<in> set data)"
proof
  assume "\<exists>k\<in>{0..<int (length data)}. data ! nat k = 0"
  then obtain k where "0 \<le> k" "k < int (length data)" "data ! nat k = 0"
    by auto
  then have "nat k < length data" by simp
  with \<open>data ! nat k = 0\<close> show "0 \<in> set data"
    by (metis nth_mem)
next
  assume "0 \<in> set data"
  then obtain j where "j < length data" "data ! j = 0"
    by (auto simp add: in_set_conv_nth)
  then have "int j \<in> {0..<int (length data)}" "data ! nat (int j) = 0"
    by auto
  then show "\<exists>k\<in>{0..<int (length data)}. data ! nat k = 0"
    by blast
qed

lemma chain_count:
  "chain a b ts \<Longrightarrow> (\<Sum>t\<leftarrow>ts. max 0 (end_idx t - start t)) = b - a"
  by (induction ts arbitrary: a) auto

lemma local_metrics_fields:
  "local_sum (local_metrics data t) = (\<Sum>k = start t..<end_idx t. data ! nat k)"
  "local_diff_sum (local_metrics data t) = (\<Sum>k = start t..<end_idx t. data ! nat k - of_int k)"
  "local_log_sum (local_metrics data t) =
     (\<Sum>k = start t..<end_idx t. if data ! nat k = 0 then 0 else ln \<bar>data ! nat k\<bar>)"
  "local_has_zero (local_metrics data t) = (\<exists>k\<in>{start t..<end_idx t}. data ! nat k = 0)"
  "local_count (local_metrics data t) = max 0 (end_idx t - start t)"
  by (simp_all add: local_metrics_def locals0_def compute_loop_sum compute_loop_diff_sum
      compute_loop_log_sum compute_loop_has_zero compute_loop_count)

lemma joined_totals:
  assumes "chain 0 (int (length data)) ts"
  defines "g \<equiv> fold (computeMetrics data) ts globals0"
  shows "global_sum g = sequential_sum data"
    and "global_diff_sum g = sequential_diff_sum data"
    and "global_count g = int (length data)"
    and "has_zero g = (0 \<in> set data)"
    and "0 \<notin> set data \<Longrightarrow> global_log_sum g = sequential_log_sum data"
proof -
  show "global_sum g = sequential_sum data"
    unfolding g_def fold_global_sum local_metrics_fields
    using chain_sum [OF assms(1)] by (simp add: globals0_def whole_sum)
  show "global_diff_sum g = sequential_diff_sum data"
    unfolding g_def fold_global_diff_sum local_metrics_fields
    using chain_sum [OF assms(1)] by (simp add: globals0_def whole_diff_sum)
  show "global_count g = int (length data)"
    unfolding g_def fold_global_count local_metrics_fields
    using chain_count [OF assms(1)] by (simp add: globals0_def)
  show "has_zero g = (0 \<in> set data)"
    unfolding g_def fold_has_zero local_metrics_fields
    using chain_Ex [OF assms(1)] by (simp add: globals0_def whole_has_zero)
  show "global_log_sum g = sequential_log_sum data" if "0 \<notin> set data"
    unfolding g_def fold_global_log_sum local_metrics_fields
    using chain_sum [OF assms(1)] that by (simp add: globals0_def whole_log_sum)
qed

text \<open>A plan is good\<close>

lemma good_plan_chain:
  assumes "1 \<le> parts" "1 \<le> chunk" "parts * chunk \<le> n"
  shows "chain 0 n (make_tasks n parts chunk 0)"
proof -
  have "(parts - 1) * chunk \<le> n"
    using assms by (simp add: algebra_simps)
  then show ?thesis
    using make_tasks_chain [of chunk parts n 0] assms by simp
qed

lemma good_plan_nonempty:
  assumes "1 \<le> parts" "1 \<le> chunk" "parts * chunk \<le> n" "t \<in> set (make_tasks n parts chunk 0)"
  shows "start t < end_idx t"
proof -
  have "(parts - 1) * chunk < n"
    using assms by (simp add: algebra_simps)
  then show ?thesis
    using make_tasks_nonempty [of chunk parts n t 0] assms by simp
qed

lemma size_id:
  "int (length data) \<le> INT_MAX \<Longrightarrow> to_int (int (length data)) = int (length data)"
  by (simp add: to_int_id INT_MAX_def)

lemma divideAndConquer_qt_plan:
  assumes "data \<noteq> []" "int (length data) \<le> INT_MAX" "0 \<le> splits" "splits \<le> 5"
  defines "n \<equiv> int (length data)"
  shows "divideAndConquer_qt sched data splits m =
           Inr (if n < 2 ^ nat splits then spawn_and_join sched data n n 1
                else spawn_and_join sched data n (2 ^ nat splits) (n div 2 ^ nat splits))"
proof -
  have n: "to_int (int (length data)) = n" "0 \<le> n"
    using assms by (simp_all add: size_id)
  have parts: "(if splits = 0 then Inr 1 else shl 1 splits) = Inr (2 ^ nat splits)"
    using assms by (simp add: shl_1_small)
  have "c_div n (2 ^ nat splits) = Inr (n div 2 ^ nat splits)"
    using n by (simp add: c_div_pos)
  moreover have "n div 2 ^ nat splits = 0 \<longleftrightarrow> n < 2 ^ nat splits"
    using n by (simp add: chunk_zero_iff)
  ultimately show ?thesis
    using assms(1,3,4) by (simp add: divideAndConquer_qt_def n parts)
qed

lemma threadPool_plan:
  assumes "data \<noteq> []" "int (length data) \<le> INT_MAX" "1 \<le> num_threads" "num_threads \<le> 32"
  defines "n \<equiv> int (length data)"
  shows "threadPool sched data num_threads m =
           Inr (if n < num_threads then start_and_wait sched data n n 1
                else start_and_wait sched data n num_threads (n div num_threads))"
proof -
  have n: "to_int (int (length data)) = n" "0 \<le> n"
    using assms by (simp_all add: size_id)
  have "c_div n num_threads = Inr (n div num_threads)"
    using n assms by (simp add: c_div_pos)
  moreover have "n div num_threads = 0 \<longleftrightarrow> n < num_threads"
    using n assms by (simp add: chunk_zero_iff)
  ultimately show ?thesis
    using assms(1,3,4) by (simp add: threadPool_def n)
qed

lemma divideAndConquer_cc_plan:
  assumes "data \<noteq> []" "int (length data) \<le> INT_MAX" "0 \<le> splits" "splits \<le> 31"
  defines "n \<equiv> int (length data)"
  shows "divideAndConquer_cc sched data splits m =
           Inr (if splits \<le> 4 \<and> 2 ^ nat splits \<le> n
                then spawn_and_join sched data n (2 ^ nat splits) (n div 2 ^ nat splits)
                else spawn_and_join sched data n (min n 16) (n div min n 16))"
proof -
  have n: "to_int (int (length data)) = n" "1 \<le> n" "n \<le> INT_MAX"
    using assms by (simp_all add: size_id Suc_leI)
  then have clamp: "c_div n (min n 16) = Inr (n div min n 16)"
    by (simp add: c_div_pos)
  show ?thesis
  proof (cases "splits = 31")
    case True
    then have "(if splits = 0 then Inr 1 else shl 1 splits) = Inr INT_MIN"
      by (simp add: shl_1_31)
    moreover have "c_div n INT_MIN = Inr 0"
      using n by (simp add: c_div_INT_MIN)
    ultimately show ?thesis
      using assms(1) True by (simp add: divideAndConquer_cc_def n clamp)
  next
    case False
    with assms have s: "0 \<le> splits" "splits \<le> 30"
      by simp_all
    then have parts: "(if splits = 0 then Inr 1 else shl 1 splits) = Inr (2 ^ nat splits)"
      by (simp add: shl_1_small)
    have div: "c_div n (2 ^ nat splits) = Inr (n div 2 ^ nat splits)"
      using n by (simp add: c_div_pos)
    have zero: "n div 2 ^ nat splits = 0 \<longleftrightarrow> n < 2 ^ nat splits"
      using n by (simp add: chunk_zero_iff)
    have big: "(16::int) < 2 ^ nat splits \<longleftrightarrow> 4 < splits"
    proof
      assume "4 < splits"
      then have "(2::int) ^ 5 \<le> 2 ^ nat splits"
        by (intro power_increasing) auto
      then show "(16::int) < 2 ^ nat splits" by simp
    next
      assume "(16::int) < 2 ^ nat splits"
      show "4 < splits"
      proof (rule ccontr)
        assume "\<not> 4 < splits"
        then have "(2::int) ^ nat splits \<le> 2 ^ 4"
          by (intro power_increasing) auto
        with \<open>(16::int) < 2 ^ nat splits\<close> show False by simp
      qed
    qed
    show ?thesis
      using assms(1) s by (auto simp add: divideAndConquer_cc_def n parts div zero big clamp)
  qed
qed

lemma divideAndConquer_cc_32:
  "data \<noteq> [] \<Longrightarrow> divideAndConquer_cc sched data 32 m = Inl Shift_undefined"
  by (simp add: divideAndConquer_cc_def shl_1_wide)

lemma spawn_and_join_scheduled:
  "exactly_once sched \<Longrightarrow>
     spawn_and_join sched data n parts chunk = spawn_and_join id data n parts chunk"
  by (simp add: spawn_and_join_def Let_def fold_computeMetrics_scheduled)

lemma start_and_wait_scheduled:
  "exactly_once sched \<Longrightarrow>
     start_and_wait sched data n parts chunk = start_and_wait id data n parts chunk"
  by (simp add: start_and_wait_def Let_def fold_computeMetrics_scheduled)




lemma spawn_and_join_whole:
  assumes "exactly_once sched" "1 \<le> parts" "1 \<le> chunk" "parts * chunk \<le> int (length data)"
  shows "whole_run data (nat parts) (spawn_and_join sched data (int (length data)) parts chunk)"
proof -
  have "chain 0 (int (length data)) (make_tasks (int (length data)) parts chunk 0)"
    using assms by (intro good_plan_chain)
  moreover have "list_all (\<lambda>t. start t < end_idx t) (make_tasks (int (length data)) parts chunk 0)"
    using assms good_plan_nonempty [of parts chunk "int (length data)"]
    by (simp add: list_all_iff)
  ultimately show ?thesis
    unfolding spawn_and_join_scheduled [OF assms(1)]
    by (simp add: whole_run_def spawn_and_join_def Let_def make_tasks_length)
qed

lemma start_and_wait_whole:
  assumes "exactly_once sched" "1 \<le> parts" "1 \<le> chunk" "parts * chunk \<le> int (length data)"
  shows "whole_run data (nat parts) (start_and_wait sched data (int (length data)) parts chunk)"
proof -
  have "chain 0 (int (length data)) (make_tasks (int (length data)) parts chunk 0)"
    using assms by (intro good_plan_chain)
  moreover have "list_all (\<lambda>t. start t < end_idx t) (make_tasks (int (length data)) parts chunk 0)"
    using assms good_plan_nonempty [of parts chunk "int (length data)"]
    by (simp add: list_all_iff)
  ultimately show ?thesis
    unfolding start_and_wait_scheduled [OF assms(1)]
    by (simp add: whole_run_def start_and_wait_def Let_def make_tasks_length)
qed

lemma nonempty_size: "data \<noteq> [] \<Longrightarrow> 1 \<le> int (length data)"
  by (cases data) simp_all

text \<open>Every accepted call on a non-empty dataset runs a good plan.\<close>

lemma divideAndConquer_qt_good_plan:
  assumes "data \<noteq> []" "int (length data) \<le> INT_MAX" "0 \<le> splits" "splits \<le> 5"
  shows "\<exists>parts chunk.
           divideAndConquer_qt sched data splits m =
             Inr (spawn_and_join sched data (int (length data)) parts chunk) \<and>
           parts = min (int (length data)) (2 ^ nat splits) \<and>
           chunk = (if int (length data) < 2 ^ nat splits then 1
                    else int (length data) div 2 ^ nat splits) \<and>
           1 \<le> parts \<and> 1 \<le> chunk \<and> parts * chunk \<le> int (length data)"
proof (cases "int (length data) < 2 ^ nat splits")
  case True
  then show ?thesis
    using divideAndConquer_qt_plan [OF assms, of sched m] nonempty_size [OF assms(1)]
    by (simp add: min_def)
next
  case False
  then show ?thesis
    using divideAndConquer_qt_plan [OF assms, of sched m]
    by (simp add: min_def chunk_pos parts_chunk_le)
qed

lemma threadPool_good_plan:
  assumes "data \<noteq> []" "int (length data) \<le> INT_MAX" "1 \<le> num_threads" "num_threads \<le> 32"
  shows "\<exists>parts chunk.
           threadPool sched data num_threads m =
             Inr (start_and_wait sched data (int (length data)) parts chunk) \<and>
           parts = min (int (length data)) num_threads \<and>
           chunk = (if int (length data) < num_threads then 1
                    else int (length data) div num_threads) \<and>
           1 \<le> parts \<and> 1 \<le> chunk \<and> parts * chunk \<le> int (length data)"
proof (cases "int (length data) < num_threads")
  case True
  then show ?thesis
    using threadPool_plan [OF assms, of sched m] nonempty_size [OF assms(1)]
    by (simp add: min_def)
next
  case False
  then show ?thesis
    using threadPool_plan [OF assms, of sched m] assms(3)
    by (simp add: min_def chunk_pos parts_chunk_le)
qed

lemma divideAndConquer_cc_good_plan:
  assumes "data \<noteq> []" "int (length data) \<le> INT_MAX" "0 \<le> splits" "splits \<le> 31"
  shows "\<exists>parts chunk.
           divideAndConquer_cc sched data splits m =
             Inr (spawn_and_join sched data (int (length data)) parts chunk) \<and>
           parts = (if splits \<le> 4 \<and> 2 ^ nat splits \<le> int (length data) then 2 ^ nat splits
                    else min (int (length data)) 16) \<and>
           chunk = int (length data) div parts \<and>
           1 \<le> parts \<and> 1 \<le> chunk \<and> parts * chunk \<le> int (length data)"
proof (cases "splits \<le> 4 \<and> 2 ^ nat splits \<le> int (length data)")
  case True
  have "1 \<le> int (length data) div 2 ^ nat splits"
    "2 ^ nat splits * (int (length data) div 2 ^ nat splits) \<le> int (length data)"
    using True by (simp_all add: chunk_pos parts_chunk_le)
  then show ?thesis
    using divideAndConquer_cc_plan [OF assms, of sched m] True by auto
next
  case False
  have n: "1 \<le> int (length data)"
    using assms(1) by (rule nonempty_size)
  then have p: "1 \<le> min (int (length data)) 16"
    by linarith
  then have "1 \<le> int (length data) div min (int (length data)) 16"
    by (intro chunk_pos) linarith+
  moreover from p
  have "min (int (length data)) 16 * (int (length data) div min (int (length data)) 16)
       \<le> int (length data)"
    by (intro parts_chunk_le) linarith
  ultimately show ?thesis
    using divideAndConquer_cc_plan [OF assms, of sched m] False p by auto
qed

lemma divideAndConquer_qt_whole:
  assumes "exactly_once sched" "data \<noteq> []" "int (length data) \<le> INT_MAX"
    and "0 \<le> splits" "splits \<le> 5"
  shows "\<exists>r. divideAndConquer_qt sched data splits m = Inr r \<and>
           whole_run data (nat (min (int (length data)) (2 ^ nat splits))) r"
  using divideAndConquer_qt_good_plan [OF assms(2-5), of sched m] spawn_and_join_whole [OF assms(1)]
  by force

lemma threadPool_whole:
  assumes "exactly_once sched" "data \<noteq> []" "int (length data) \<le> INT_MAX"
    and "1 \<le> num_threads" "num_threads \<le> 32"
  shows "\<exists>r. threadPool sched data num_threads m = Inr r \<and>
           whole_run data (nat (min (int (length data)) num_threads)) r"
  using threadPool_good_plan [OF assms(2-5), of sched m] start_and_wait_whole [OF assms(1)]
  by force

lemma divideAndConquer_cc_whole:
  assumes "exactly_once sched" "data \<noteq> []" "int (length data) \<le> INT_MAX"
    and "0 \<le> splits" "splits \<le> 31"
  shows "\<exists>r. divideAndConquer_cc sched data splits m = Inr r \<and>
           whole_run data
             (nat (if splits \<le> 4 \<and> 2 ^ nat splits \<le> int (length data) then 2 ^ nat splits
                   else min (int (length data)) 16)) r"
  using divideAndConquer_cc_good_plan [OF assms(2-5), of sched m] spawn_and_join_whole [OF assms(1)]
  by force

text \<open>A call that read merged totals was in range\<close>

lemma divideAndConquer_cc_merged:
  assumes "divideAndConquer_cc sched data splits m = Inr r" "merged r = Some g"
  shows "data \<noteq> [] \<and> 0 \<le> splits \<and> splits \<le> 31"
proof -
  from assms have "data \<noteq> []"
    by (auto simp add: divideAndConquer_cc_def short_circuit_def)
  moreover from assms this have "0 \<le> splits \<and> splits \<le> 32"
    by (auto simp add: divideAndConquer_cc_def rejected_def Let_def split: if_splits)
  moreover from assms \<open>data \<noteq> []\<close> have "splits \<noteq> 32"
    by (auto simp add: divideAndConquer_cc_32)
  ultimately show ?thesis by simp
qed

lemma divideAndConquer_qt_merged:
  assumes "divideAndConquer_qt sched data splits m = Inr r" "merged r = Some g"
  shows "data \<noteq> [] \<and> 0 \<le> splits \<and> splits \<le> 5"
proof -
  from assms have "data \<noteq> []"
    by (auto simp add: divideAndConquer_qt_def short_circuit_def)
  moreover from assms this have "0 \<le> splits \<and> splits \<le> 5"
    by (auto simp add: divideAndConquer_qt_def rejected_def Let_def split: if_splits)
  ultimately show ?thesis by simp
qed

lemma threadPool_merged:
  assumes "threadPool sched data num_threads m = Inr r" "merged r = Some g"
  shows "data \<noteq> [] \<and> 1 \<le> num_threads \<and> num_threads \<le> 32"
proof -
  from assms have "data \<noteq> []"
    by (auto simp add: threadPool_def short_circuit_def)
  moreover from assms this have "1 \<le> num_threads \<and> num_threads \<le> 32"
    by (auto simp add: threadPool_def rejected_def Let_def split: if_splits)
  ultimately show ?thesis by simp
qed

lemmas run_defs = divideAndConquer_cc_def divideAndConquer_qt_def threadPool_def
  short_circuit_def rejected_def spawn_and_join_def start_and_wait_def
  shl_def to_int_def c_div_def INT_MIN_def INT_MAX_def signed_divide_int_def
  make_tasks.simps computeMetrics_def local_metrics_def compute_loop.simps loop_body_def
  locals0_def globals0_def merge_def final_metrics_def

lemma whole_run_totals:
  assumes "whole_run data k r"
  shows "\<exists>g. merged r = Some g \<and> out r = final_metrics g \<and>
           global_sum g = sequential_sum data \<and>
           global_diff_sum g = sequential_diff_sum data \<and>
           global_count g = int (length data) \<and>
           has_zero g = (0 \<in> set data) \<and>
           (0 \<notin> set data \<longrightarrow> global_log_sum g = sequential_log_sum data)"
  using assms joined_totals [of data "tasks r"] by (simp add: whole_run_def)

lemma merged_whole_run:
  assumes "exactly_once sched" "int (length data) \<le> INT_MAX"
    and "divideAndConquer_cc sched data p m = Inr r \<or>
         divideAndConquer_qt sched data p m = Inr r \<or>
         threadPool sched data p m = Inr r"
    and "merged r = Some g"
  shows "data \<noteq> [] \<and> (\<exists>k. whole_run data k r)"
  using assms(3)
proof (elim disjE)
  assume *: "divideAndConquer_cc sched data p m = Inr r"
  with assms divideAndConquer_cc_merged [OF * assms(4)]
    divideAndConquer_cc_whole [of sched data p m]
  show ?thesis by auto
next
  assume *: "divideAndConquer_qt sched data p m = Inr r"
  with assms divideAndConquer_qt_merged [OF * assms(4)]
    divideAndConquer_qt_whole [of sched data p m]
  show ?thesis by auto
next
  assume *: "threadPool sched data p m = Inr r"
  with assms threadPool_merged [OF * assms(4)]
    threadPool_whole [of sched data p m]
  show ?thesis by auto
qed

text \<open>Every accepted call on a non-empty dataset merges its tasks and reads the totals.\<close>

lemma whole_run_merged: "whole_run data k r \<Longrightarrow> \<exists>g. merged r = Some g"
  by (simp add: whole_run_def)

lemma shift_defined: "0 \<le> p \<Longrightarrow> (if p = 0 then Inr 1 else shl 1 p) = Inr parts \<Longrightarrow> p \<le> 31"
  by (auto simp add: shl_def split: if_splits)

lemma accepted_calls_merge:
  assumes "exactly_once sched" "int (length data) \<le> INT_MAX" "data \<noteq> []"
  shows "0 \<le> p \<and> p \<le> 32 \<and> (if p = 0 then Inr 1 else shl 1 p) = Inr parts \<longrightarrow>
           (\<exists>r g. divideAndConquer_cc sched data p m = Inr r \<and> merged r = Some g)"
    and "0 \<le> p \<and> p \<le> 5 \<longrightarrow>
           (\<exists>r g. divideAndConquer_qt sched data p m = Inr r \<and> merged r = Some g)"
    and "1 \<le> p \<and> p \<le> 32 \<longrightarrow>
           (\<exists>r g. threadPool sched data p m = Inr r \<and> merged r = Some g)"
  using assms divideAndConquer_cc_whole [of sched data p m]
    divideAndConquer_qt_whole [of sched data p m] threadPool_whole [of sched data p m]
    shift_defined [of p parts]
  by (blast dest: whole_run_merged)+

section \<open>The merged totals\<close>

text \<open>
  C1. Whenever an executor has merged its partition tasks and read the totals
  (\<open>merged r = Some g\<close>), the global sum and the global diff-sum are those of the
  sequential fold over the whole dataset in element order, in whatever order the tasks
  merged; so \<open>mode\<close> is the diff-sum over the number of elements and \<open>stddev\<close> half the
  sum, whatever the parameter and the number of partitions it led to. And the totals are
  read for every non-empty dataset and every parameter in range; for main.cc that is a
  split depth whose part count \<open>1 << splits\<close> is defined. The sums are over the reals, and
  the dataset has at most \<open>INT_MAX\<close> elements.
\<close>

theorem C1_sums_are_the_sequential_fold:
  assumes "exactly_once sched" "int (length data) \<le> INT_MAX"
  shows "((divideAndConquer_cc sched data p m = Inr r \<or>
           divideAndConquer_qt sched data p m = Inr r \<or>
           threadPool sched data p m = Inr r) \<and> merged r = Some g \<longrightarrow>
            global_sum g = sequential_sum data \<and>
            global_diff_sum g = sequential_diff_sum data \<and>
            mode (out r) = sequential_diff_sum data / real (length data) \<and>
            stddev (out r) = sequential_sum data / 2) \<and>
         (data \<noteq> [] \<and> 0 \<le> p \<and> p \<le> 32 \<and> (if p = 0 then Inr 1 else shl 1 p) = Inr parts \<longrightarrow>
            (\<exists>r g. divideAndConquer_cc sched data p m = Inr r \<and> merged r = Some g)) \<and>
         (data \<noteq> [] \<and> 0 \<le> p \<and> p \<le> 5 \<longrightarrow>
            (\<exists>r g. divideAndConquer_qt sched data p m = Inr r \<and> merged r = Some g)) \<and>
         (data \<noteq> [] \<and> 1 \<le> p \<and> p \<le> 32 \<longrightarrow>
            (\<exists>r g. threadPool sched data p m = Inr r \<and> merged r = Some g))"
proof (intro conjI impI; (elim conjE)?)
  assume run: "divideAndConquer_cc sched data p m = Inr r \<or>
      divideAndConquer_qt sched data p m = Inr r \<or> threadPool sched data p m = Inr r"
    and g: "merged r = Some g"
  from merged_whole_run [OF assms run g] obtain k where "data \<noteq> []" "whole_run data k r"
    by blast
  with whole_run_totals [of data k r] g
  show "global_sum g = sequential_sum data" "global_diff_sum g = sequential_diff_sum data"
    "mode (out r) = sequential_diff_sum data / real (length data)"
    "stddev (out r) = sequential_sum data / 2"
    by (auto simp add: final_metrics_def)
qed (use accepted_calls_merge(1) [OF assms, of p parts m]
      accepted_calls_merge(2,3) [OF assms, of p m] in blast)+

theorem C1_witness:
  "exactly_once rev \<and> int (length [0, 1, 2 :: real]) \<le> INT_MAX \<and>
   divideAndConquer_cc rev [0, 1, 2] 1 \<lparr>mode = 7, stddev = 7, sum_out = 7\<rparr> =
     Inr \<lparr>out = \<lparr>mode = 0, stddev = 3 / 2, sum_out = 0\<rparr>, cerr = [],
          tasks = [\<lparr>start = 0, end_idx = 1\<rparr>, \<lparr>start = 1, end_idx = 3\<rparr>], spawned = 2,
          merged = Some \<lparr>global_log_sum = ln 2, global_sum = 3, global_diff_sum = 0,
                         has_zero = True, global_count = 3\<rparr>\<rparr> \<and>
   sequential_sum [0, 1, 2] = 3 \<and> sequential_diff_sum [0, 1, 2] = 0 \<and>
   (\<exists>r g. divideAndConquer_cc rev [0, 1, 2] 31 \<lparr>mode = 7, stddev = 7, sum_out = 7\<rparr> = Inr r \<and>
          merged r = Some g \<and> global_sum g = 3 \<and> stddev (out r) = 3 / 2 \<and> mode (out r) = 0)"
proof -
  have a: "exactly_once rev" and b: "int (length [0, 1, 2 :: real]) \<le> INT_MAX"
    by (simp_all add: exactly_once_def INT_MAX_def)
  have seq: "sequential_sum [0, 1, 2] = 3" "sequential_diff_sum [0, 1, 2] = 0"
    by (simp_all add: sequential_sum_def sequential_diff_sum_def)
  from C1_sums_are_the_sequential_fold [OF a b,
      where p = 31 and parts = INT_MIN and m = "\<lparr>mode = 7, stddev = 7, sum_out = 7\<rparr>",
      THEN conjunct2, THEN conjunct1]
  obtain r g where r: "divideAndConquer_cc rev [0, 1, 2] 31 \<lparr>mode = 7, stddev = 7, sum_out = 7\<rparr> = Inr r"
    "merged r = Some g"
    by (auto simp add: shl_1_31)
  with C1_sums_are_the_sequential_fold [OF a b,
      where p = 31 and m = "\<lparr>mode = 7, stddev = 7, sum_out = 7\<rparr>" and r = r and g = g,
      THEN conjunct1] seq
  have "global_sum g = 3 \<and> stddev (out r) = 3 / 2 \<and> mode (out r) = 0"
    by simp
  with r a b seq show ?thesis
    by (simp add: run_defs)
qed

text \<open>
  C4. Under both strategies, and in both versions of divide and conquer, once all tasks
  have merged the global element count is the length of the dataset; and the tasks are
  merged for every non-empty dataset and every parameter in range (for main.cc, a split
  depth whose part count is defined).
\<close>

theorem C4_count_is_length:
  assumes "exactly_once sched" "int (length data) \<le> INT_MAX"
  shows "((divideAndConquer_cc sched data p m = Inr r \<or>
           divideAndConquer_qt sched data p m = Inr r \<or>
           threadPool sched data p m = Inr r) \<and> merged r = Some g \<longrightarrow>
            global_count g = int (length data)) \<and>
         (data \<noteq> [] \<and> 0 \<le> p \<and> p \<le> 32 \<and> (if p = 0 then Inr 1 else shl 1 p) = Inr parts \<longrightarrow>
            (\<exists>r g. divideAndConquer_cc sched data p m = Inr r \<and> merged r = Some g)) \<and>
         (data \<noteq> [] \<and> 0 \<le> p \<and> p \<le> 5 \<longrightarrow>
            (\<exists>r g. divideAndConquer_qt sched data p m = Inr r \<and> merged r = Some g)) \<and>
         (data \<noteq> [] \<and> 1 \<le> p \<and> p \<le> 32 \<longrightarrow>
            (\<exists>r g. threadPool sched data p m = Inr r \<and> merged r = Some g))"
proof (intro conjI impI; (elim conjE)?)
  assume run: "divideAndConquer_cc sched data p m = Inr r \<or>
      divideAndConquer_qt sched data p m = Inr r \<or> threadPool sched data p m = Inr r"
    and g: "merged r = Some g"
  from merged_whole_run [OF assms run g] obtain k where "whole_run data k r"
    by blast
  with whole_run_totals [of data k r] g show "global_count g = int (length data)"
    by auto
qed (use accepted_calls_merge(1) [OF assms, of p parts m]
      accepted_calls_merge(2,3) [OF assms, of p m] in blast)+

theorem C4_witness:
  "exactly_once rev \<and> int (length [5, 0, 2, 4, 1 :: real]) \<le> INT_MAX \<and>
   threadPool rev [5, 0, 2, 4, 1] 2 \<lparr>mode = 0, stddev = 0, sum_out = 0\<rparr> =
     Inr \<lparr>out = \<lparr>mode = 2 / 5, stddev = 6, sum_out = 0\<rparr>, cerr = [],
          tasks = [\<lparr>start = 0, end_idx = 2\<rparr>, \<lparr>start = 2, end_idx = 5\<rparr>], spawned = 2,
          merged = Some \<lparr>global_log_sum = ln 2 + ln 4 + ln 5, global_sum = 12,
                         global_diff_sum = 2, has_zero = True, global_count = 5\<rparr>\<rparr> \<and>
   (\<exists>r g. divideAndConquer_qt rev [5, 0, 2, 4, 1] 5 \<lparr>mode = 0, stddev = 0, sum_out = 0\<rparr> = Inr r \<and>
          merged r = Some g \<and> global_count g = 5)"
proof -
  have a: "exactly_once rev" and b: "int (length [5, 0, 2, 4, 1 :: real]) \<le> INT_MAX"
    by (simp_all add: exactly_once_def INT_MAX_def)
  from C4_count_is_length [OF a b,
      where p = 5 and m = "\<lparr>mode = 0, stddev = 0, sum_out = 0\<rparr>",
      THEN conjunct2, THEN conjunct2, THEN conjunct1]
  obtain r g where r: "divideAndConquer_qt rev [5, 0, 2, 4, 1] 5 \<lparr>mode = 0, stddev = 0, sum_out = 0\<rparr> = Inr r"
    "merged r = Some g"
    by auto
  with C4_count_is_length [OF a b,
      where p = 5 and m = "\<lparr>mode = 0, stddev = 0, sum_out = 0\<rparr>" and r = r and g = g,
      THEN conjunct1]
  have "global_count g = 5"
    by simp
  with r a b show ?thesis
    by (simp add: run_defs)
qed

section \<open>The partition plan\<close>

lemma chain_bounds:
  "chain a b ts \<Longrightarrow> k < length ts \<Longrightarrow> a \<le> start (ts ! k) \<and> end_idx (ts ! k) \<le> b"
proof (induction ts arbitrary: a k)
  case Nil
  then show ?case by simp
next
  case (Cons t ts)
  show ?case
  proof (cases k)
    case 0
    with Cons.prems chain_le [of "end_idx t" b ts] show ?thesis by simp
  next
    case (Suc k')
    with Cons.prems Cons.IH [of "end_idx t" k'] show ?thesis by simp
  qed
qed

lemma chain_ordered:
  "chain a b ts \<Longrightarrow> i < j \<Longrightarrow> j < length ts \<Longrightarrow> end_idx (ts ! i) \<le> start (ts ! j)"
proof (induction ts arbitrary: a i j)
  case Nil
  then show ?case by simp
next
  case (Cons t ts)
  from Cons.prems obtain j' where j: "j = Suc j'" "j' < length ts"
    by (cases j) auto
  show ?case
  proof (cases i)
    case 0
    with Cons.prems j chain_bounds [of "end_idx t" b ts j'] show ?thesis by simp
  next
    case (Suc i')
    with Cons.prems j Cons.IH [of "end_idx t" i' j'] show ?thesis by simp
  qed
qed

lemma chain_disjoint:
  assumes "chain a b ts" "i < length ts" "j < length ts" "i \<noteq> j"
  shows "indices (ts ! i) \<inter> indices (ts ! j) = {}"
proof (cases "i < j")
  case True
  with assms chain_ordered [of a b ts i j] show ?thesis
    by (auto simp add: indices_def)
next
  case False
  with assms have "j < i" by simp
  with assms chain_ordered [of a b ts j i] show ?thesis
    by (auto simp add: indices_def)
qed

lemma chain_union: "chain a b ts \<Longrightarrow> (\<Union>t\<in>set ts. indices t) = {a..<b}"
proof (induction ts arbitrary: a)
  case Nil
  then show ?case by simp
next
  case (Cons t ts)
  then have "a \<le> end_idx t" "end_idx t \<le> b" "start t = a"
    by (auto dest: chain_le)
  then have "{a..<b} = indices t \<union> {end_idx t..<b}"
    by (auto simp add: indices_def)
  moreover from Cons have "(\<Union>u\<in>set ts. indices u) = {end_idx t..<b}"
    by simp
  ultimately show ?case
    by simp
qed

lemma chain_partitions: "chain 0 n ts \<Longrightarrow> partitions n ts"
  using chain_union [of 0 n ts] chain_len [of 0 n ts] chain_disjoint [of 0 n ts]
  by (simp add: partitions_def)

lemma good_plan_partitions:
  "1 \<le> parts \<Longrightarrow> 1 \<le> chunk \<Longrightarrow> parts * chunk \<le> n \<Longrightarrow>
     partitions n (make_tasks n parts chunk 0)"
  by (intro chain_partitions good_plan_chain)

lemma tasks_spawn_and_join [simp]:
  "tasks (spawn_and_join sched data n parts chunk) = make_tasks n parts chunk 0"
  by (simp add: spawn_and_join_def Let_def)

lemma tasks_start_and_wait [simp]:
  "tasks (start_and_wait sched data n parts chunk) = make_tasks n parts chunk 0"
  by (simp add: start_and_wait_def Let_def)

text \<open>
  C3. For a non-empty dataset the ranges built by both versions of
  \<open>divideAndConquer\<close> and by \<open>threadPool\<close> partition the indices of the dataset
  (contiguous, pairwise disjoint, covering everything below the length, the lengths
  adding up to it) for every accepted parameter but one: main.cc accepts the split depth
  32, for which \<open>1 << splits\<close> shifts a 32-bit \<open>int\<close> by its whole width, so that the
  number of parts and with it the plan is undefined.
\<close>

theorem C3_partitions_and_undefined_shift:
  assumes "data \<noteq> []" "int (length data) \<le> INT_MAX"
  shows "(0 \<le> splits \<and> splits \<le> 31 \<longrightarrow>
            (\<exists>r. divideAndConquer_cc sched data splits m = Inr r \<and>
                 partitions (int (length data)) (tasks r))) \<and>
         divideAndConquer_cc sched data 32 m = Inl Shift_undefined \<and>
         (0 \<le> splits \<and> splits \<le> 5 \<longrightarrow>
            (\<exists>r. divideAndConquer_qt sched data splits m = Inr r \<and>
                 partitions (int (length data)) (tasks r))) \<and>
         (1 \<le> num_threads \<and> num_threads \<le> 32 \<longrightarrow>
            (\<exists>r. threadPool sched data num_threads m = Inr r \<and>
                 partitions (int (length data)) (tasks r)))"
proof (intro conjI impI)
  assume "0 \<le> splits \<and> splits \<le> 31"
  then show "\<exists>r. divideAndConquer_cc sched data splits m = Inr r \<and>
      partitions (int (length data)) (tasks r)"
    using divideAndConquer_cc_good_plan [OF assms, of splits sched m]
    by (auto intro: good_plan_partitions)
next
  show "divideAndConquer_cc sched data 32 m = Inl Shift_undefined"
    using assms(1) by (rule divideAndConquer_cc_32)
next
  assume "0 \<le> splits \<and> splits \<le> 5"
  then show "\<exists>r. divideAndConquer_qt sched data splits m = Inr r \<and>
      partitions (int (length data)) (tasks r)"
    using divideAndConquer_qt_good_plan [OF assms, of splits sched m]
    by (auto intro: good_plan_partitions)
next
  assume "1 \<le> num_threads \<and> num_threads \<le> 32"
  then show "\<exists>r. threadPool sched data num_threads m = Inr r \<and>
      partitions (int (length data)) (tasks r)"
    using threadPool_good_plan [OF assms, of num_threads sched m]
    by (auto intro: good_plan_partitions)
qed

theorem C3_witness:
  "divideAndConquer_cc id [0, 1, 2] 32 \<lparr>mode = 0, stddev = 0, sum_out = 0\<rparr> = Inl Shift_undefined \<and>
   (\<exists>r. divideAndConquer_cc id [0, 1, 2] 31 \<lparr>mode = 0, stddev = 0, sum_out = 0\<rparr> = Inr r \<and>
        partitions 3 (tasks r) \<and>
        tasks r = [\<lparr>start = 0, end_idx = 1\<rparr>, \<lparr>start = 1, end_idx = 2\<rparr>, \<lparr>start = 2, end_idx = 3\<rparr>]) \<and>
   (\<exists>r. threadPool id [0, 1, 2] 2 \<lparr>mode = 0, stddev = 0, sum_out = 0\<rparr> = Inr r \<and>
        partitions 3 (tasks r) \<and>
        tasks r = [\<lparr>start = 0, end_idx = 1\<rparr>, \<lparr>start = 1, end_idx = 3\<rparr>])"
proof -
  have a: "[0, 1, 2 :: real] \<noteq> []" and b: "int (length [0, 1, 2 :: real]) \<le> INT_MAX"
    by (simp_all add: INT_MAX_def)
  note c3 = C3_partitions_and_undefined_shift [OF a b, of _ id "\<lparr>mode = 0, stddev = 0, sum_out = 0\<rparr>"]
  from c3 [of 31 2] show ?thesis
    by (auto simp add: run_defs)
qed

section \<open>The product-style metric\<close>




section \<open>Clamping the number of parts\<close>







section \<open>Validation and the empty dataset\<close>

text \<open>
  C6. For a non-empty dataset and a parameter outside the range the executor documents
  (split depth 0 to 32 in main.cc and 0 to 5 in the second program, 1 to 32 workers for
  the pool), the call writes the validation error to \<open>std::cerr\<close>, builds no task,
  constructs no thread, reads no totals, and leaves the three output parameters as the
  caller passed them.
\<close>

theorem C6_out_of_range_is_rejected:
  assumes "data \<noteq> []"
  shows "(splits < 0 \<or> 32 < splits \<longrightarrow>
            divideAndConquer_cc sched data splits m =
              Inr \<lparr>out = m, cerr = [Splits_out_of_range], tasks = [], spawned = 0,
                   merged = None\<rparr>) \<and>
         (splits < 0 \<or> 5 < splits \<longrightarrow>
            divideAndConquer_qt sched data splits m =
              Inr \<lparr>out = m, cerr = [Splits_out_of_range], tasks = [], spawned = 0,
                   merged = None\<rparr>) \<and>
         (num_threads < 1 \<or> 32 < num_threads \<longrightarrow>
            threadPool sched data num_threads m =
              Inr \<lparr>out = m, cerr = [Threads_out_of_range], tasks = [], spawned = 0,
                   merged = None\<rparr>)"
  using assms
  by (simp add: divideAndConquer_cc_def divideAndConquer_qt_def threadPool_def rejected_def)

theorem C6_witness:
  "divideAndConquer_cc rev [3, 1] 33 \<lparr>mode = 1, stddev = 2, sum_out = 3\<rparr> =
     Inr \<lparr>out = \<lparr>mode = 1, stddev = 2, sum_out = 3\<rparr>, cerr = [Splits_out_of_range],
          tasks = [], spawned = 0, merged = None\<rparr> \<and>
   divideAndConquer_qt rev [3, 1] 6 \<lparr>mode = 1, stddev = 2, sum_out = 3\<rparr> =
     Inr \<lparr>out = \<lparr>mode = 1, stddev = 2, sum_out = 3\<rparr>, cerr = [Splits_out_of_range],
          tasks = [], spawned = 0, merged = None\<rparr> \<and>
   threadPool rev [3, 1] 0 \<lparr>mode = 1, stddev = 2, sum_out = 3\<rparr> =
     Inr \<lparr>out = \<lparr>mode = 1, stddev = 2, sum_out = 3\<rparr>, cerr = [Threads_out_of_range],
          tasks = [], spawned = 0, merged = None\<rparr>"
proof -
  have "[3, 1 :: real] \<noteq> []" by simp
  from C6_out_of_range_is_rejected [OF this, of 33 rev "\<lparr>mode = 1, stddev = 2, sum_out = 3\<rparr>" 0]
    C6_out_of_range_is_rejected [OF this, of 6 rev "\<lparr>mode = 1, stddev = 2, sum_out = 3\<rparr>" 0]
  show ?thesis by simp
qed

text \<open>
  C7. For the empty dataset every executor returns with the three outputs set to 0,
  whatever the parameter, the scheduler and the values passed in; no task is built, no
  thread constructed and nothing written to \<open>std::cerr\<close>.
\<close>

theorem C7_empty_dataset:
  "divideAndConquer_cc sched [] splits m =
     Inr \<lparr>out = \<lparr>mode = 0, stddev = 0, sum_out = 0\<rparr>, cerr = [], tasks = [], spawned = 0,
          merged = None\<rparr> \<and>
   divideAndConquer_qt sched [] splits m =
     Inr \<lparr>out = \<lparr>mode = 0, stddev = 0, sum_out = 0\<rparr>, cerr = [], tasks = [], spawned = 0,
          merged = None\<rparr> \<and>
   threadPool sched [] num_threads m =
     Inr \<lparr>out = \<lparr>mode = 0, stddev = 0, sum_out = 0\<rparr>, cerr = [], tasks = [], spawned = 0,
          merged = None\<rparr>"
  by (simp add: divideAndConquer_cc_def divideAndConquer_qt_def threadPool_def short_circuit_def)

text \<open>
  C10. The test for the empty dataset comes first: called with the empty dataset and a
  parameter outside its range, an executor sets the outputs to 0 and writes nothing to
  \<open>std::cerr\<close>; it does not reject the call, which would have left the outputs as passed.
\<close>

theorem C10_empty_before_validation:
  assumes "splits < 0 \<or> 32 < splits" "num_threads < 1 \<or> 32 < num_threads"
  shows "divideAndConquer_cc sched [] splits m = Inr short_circuit \<and>
         divideAndConquer_cc sched [] splits m \<noteq> Inr (rejected Splits_out_of_range m) \<and>
         divideAndConquer_qt sched [] splits m = Inr short_circuit \<and>
         divideAndConquer_qt sched [] splits m \<noteq> Inr (rejected Splits_out_of_range m) \<and>
         threadPool sched [] num_threads m = Inr short_circuit \<and>
         threadPool sched [] num_threads m \<noteq> Inr (rejected Threads_out_of_range m) \<and>
         out short_circuit = \<lparr>mode = 0, stddev = 0, sum_out = 0\<rparr> \<and> cerr short_circuit = []"
  by (simp add: divideAndConquer_cc_def divideAndConquer_qt_def threadPool_def
      short_circuit_def rejected_def)

theorem C10_witness:
  "divideAndConquer_cc id [] 40 \<lparr>mode = 1, stddev = 2, sum_out = 3\<rparr> =
     Inr \<lparr>out = \<lparr>mode = 0, stddev = 0, sum_out = 0\<rparr>, cerr = [], tasks = [], spawned = 0,
          merged = None\<rparr> \<and>
   divideAndConquer_qt id [] 40 \<lparr>mode = 1, stddev = 2, sum_out = 3\<rparr> =
     Inr \<lparr>out = \<lparr>mode = 0, stddev = 0, sum_out = 0\<rparr>, cerr = [], tasks = [], spawned = 0,
          merged = None\<rparr> \<and>
   threadPool id [] (- 2) \<lparr>mode = 1, stddev = 2, sum_out = 3\<rparr> =
     Inr \<lparr>out = \<lparr>mode = 0, stddev = 0, sum_out = 0\<rparr>, cerr = [], tasks = [], spawned = 0,
          merged = None\<rparr> \<and>
   divideAndConquer_cc id [9] 40 \<lparr>mode = 1, stddev = 2, sum_out = 3\<rparr> =
     Inr \<lparr>out = \<lparr>mode = 1, stddev = 2, sum_out = 3\<rparr>, cerr = [Splits_out_of_range],
          tasks = [], spawned = 0, merged = None\<rparr>"
proof -
  have a: "(40 :: int) < 0 \<or> 32 < (40 :: int)" "(- 2 :: int) < 1 \<or> 32 < (- 2 :: int)"
    by simp_all
  from C10_empty_before_validation [OF a, of id "\<lparr>mode = 1, stddev = 2, sum_out = 3\<rparr>"]
  show ?thesis
    by (simp add: short_circuit_def divideAndConquer_cc_def rejected_def)
qed

section \<open>Repeated runs\<close>







text \<open>The scheduler does not matter, as long as every task runs once.\<close>

lemma exactly_once_id: "exactly_once id"
  by (simp add: exactly_once_def)










section \<open>The two programs\<close>



















section \<open>Determinism\<close>



end
